theory Spec2Isabelle
  imports Main
begin

section \<open>JavaScript numbers of the tiling arithmetic\<close>

text \<open>
  The page extents (\<open>scrollHeight\<close>, \<open>innerHeight\<close>, ...) are integers, so the drivers'
  arithmetic is integer arithmetic except for two operations: \<open>Math.floor(viewportHeight * 0.9)\<close>
  and \<open>Math.ceil(height / step)\<close>. On integers of pixel size the first is the floor of nine
  tenths and the second the integer ceiling of the quotient; a division by zero yields
  \<open>Infinity\<close>, \<open>-Infinity\<close> or \<open>NaN\<close> in JavaScript and is kept as such.
\<close>

datatype jsnum = Num int | PosInfinity | NegInfinity | NaN

definition js_floor_mul_09 :: "int \<Rightarrow> int" where
  \<comment> \<open>\<open>Math.floor(v * 0.9)\<close>\<close>
  "js_floor_mul_09 v = (v * 9) div 10"

definition js_ceil_div :: "int \<Rightarrow> int \<Rightarrow> jsnum" where
  \<comment> \<open>\<open>Math.ceil(a / b)\<close>\<close>
  "js_ceil_div a b =
     (if b = 0 then (if a = 0 then NaN else if 0 < a then PosInfinity else NegInfinity)
      else Num (- ((- a) div b)))"

fun js_minus_one :: "jsnum \<Rightarrow> jsnum" where
  \<comment> \<open>\<open>t - 1\<close>\<close>
  "js_minus_one (Num n) = Num (n - 1)"
| "js_minus_one PosInfinity = PosInfinity"
| "js_minus_one NegInfinity = NegInfinity"
| "js_minus_one NaN = NaN"

fun js_less :: "int \<Rightarrow> jsnum \<Rightarrow> bool" where
  \<comment> \<open>\<open>i < t\<close> for an integer \<open>i\<close>; every comparison with \<open>NaN\<close> is false\<close>
  "js_less i (Num n) = (i < n)"
| "js_less i PosInfinity = True"
| "js_less i NegInfinity = False"
| "js_less i NaN = False"

section \<open>Data model\<close>

text \<open>The \<open>dimensions\<close> message of \<open>measurePage\<close> / \<open>getPageDimensions\<close> (the latter sends no
  \<open>viewportWidth\<close>; neither driver reads that field).\<close>

record page_dimensions =
  width :: int
  height :: int
  originalScrollPos :: int
  viewportHeight :: int
  viewportWidth :: int

text \<open>
  An entry of a \<open>screenshots\<close> array: \<open>{dataUrl, scrollY}\<close> in the first \<open>background.js\<close>,
  \<open>{dataUrl, yPosition}\<close> in the second.
\<close>

record encoded =
  dataUrl :: string

record screenshot = encoded +
  scrollY :: int

record placed_screenshot = encoded +
  yPosition :: int

subsection \<open>Rasters\<close>

text \<open>
  Pixels are either fully transparent (a fresh canvas) or opaque colours. A decoded image is a
  raster of \<open>iwidth \<times> iheight\<close> pixels; a canvas holds its pixels row by row.
\<close>

datatype colour = Transparent | RGB nat nat nat

definition white :: colour where
  \<comment> \<open>\<open>'#FFFFFF'\<close>\<close>
  "white = RGB 255 255 255"

record image =
  iwidth :: nat
  iheight :: nat
  ipixel :: "nat \<Rightarrow> nat \<Rightarrow> colour"

record canvas =
  cwidth :: nat
  cheight :: nat
  pixels :: "colour list list"

definition createCanvas :: "int \<Rightarrow> int \<Rightarrow> canvas" where
  \<comment> \<open>\<open>document.createElement('canvas')\<close>, then \<open>canvas.width = w; canvas.height = h\<close>:
      a transparent surface (the measured extents are never negative)\<close>
  "createCanvas w h =
     \<lparr>cwidth = nat w, cheight = nat h,
      pixels = replicate (nat h) (replicate (nat w) Transparent)\<rparr>"

definition getPixel :: "canvas \<Rightarrow> nat \<Rightarrow> nat \<Rightarrow> colour" where
  "getPixel c x y = pixels c ! y ! x"

definition repaint :: "(nat \<Rightarrow> nat \<Rightarrow> colour \<Rightarrow> colour) \<Rightarrow> canvas \<Rightarrow> canvas" where
  \<comment> \<open>a drawing operation touches the pixels of the surface and nothing else\<close>
  "repaint f c =
     c\<lparr>pixels := map (\<lambda>y. map (\<lambda>x. f x y (getPixel c x y)) [0..<cwidth c]) [0..<cheight c]\<rparr>"

definition fillRect :: "colour \<Rightarrow> int \<Rightarrow> int \<Rightarrow> int \<Rightarrow> int \<Rightarrow> canvas \<Rightarrow> canvas" where
  \<comment> \<open>\<open>ctx.fillStyle = col; ctx.fillRect(x0, y0, w, h)\<close>\<close>
  "fillRect col x0 y0 w h c =
     repaint (\<lambda>x y old.
        if x0 \<le> int x \<and> int x < x0 + w \<and> y0 \<le> int y \<and> int y < y0 + h then col else old) c"

definition source_over :: "colour \<Rightarrow> colour \<Rightarrow> colour" where
  "source_over src dst = (if src = Transparent then dst else src)"

definition drawImage :: "image \<Rightarrow> int \<Rightarrow> int \<Rightarrow> canvas \<Rightarrow> canvas" where
  \<comment> \<open>\<open>ctx.drawImage(img, dx, dy)\<close>: unscaled, clipped to the surface\<close>
  "drawImage img dx dy c =
     repaint (\<lambda>x y old.
        if dx \<le> int x \<and> int x < dx + int (iwidth img) \<and> dy \<le> int y \<and> int y < dy + int (iheight img)
        then source_over (ipixel img (nat (int x - dx)) (nat (int y - dy))) old
        else old) c"

section \<open>First \<open>background.js\<close>: recursive capture, stepping by nine tenths of the viewport\<close>

text \<open>
  The host: whether the injected \<open>scrollToPosition\<close> of tile \<open>i\<close> resolves, what
  \<open>captureVisibleTab\<close> returns for tile \<open>i\<close> (\<open>None\<close>: the promise rejects), whether the
  scroll back to \<open>originalScrollPos\<close> resolves (second \<open>background.js\<close> only), whether the
  injection of the compositing routine succeeds, and how a data URL decodes (\<open>None\<close>: the
  image fires \<open>onerror\<close> instead of \<open>onload\<close>).
\<close>

record host =
  scrollResolves :: "nat \<Rightarrow> bool"
  captureVisibleTab :: "nat \<Rightarrow> string option"
  restoreResolves :: bool
  injectResolves :: bool
  loadImage :: "string \<Rightarrow> image option"

text \<open>
  The globals \<open>currentTab\<close>, \<open>dimensions\<close>, \<open>screenshots\<close>, and what the session does to the
  outside: the page's scroll offset, the positions passed to \<open>scrollToPosition\<close>, the lines
  written by \<open>console.error\<close>, and the canvas handed to \<open>chrome.downloads.download\<close>. The
  scroll offset of the page is the position of the last scroll command that resolved (a browser
  would in addition clamp it to the scrollable range).
\<close>

record session =
  currentTab :: "nat option"
  dimensions :: "page_dimensions option"
  screenshots :: "screenshot list"
  pageScrollY :: int
  scrollRequests :: "int list"
  console :: "string list"
  download :: "canvas option"

fun drawImages :: "host \<Rightarrow> screenshot list \<Rightarrow> canvas \<Rightarrow> canvas" where
  \<comment> \<open>the \<open>for\<close> loop of \<open>drawImages\<close>: a tile whose image is \<open>null\<close> is not drawn\<close>
  "drawImages H [] c = c"
| "drawImages H (t # ts) c =
     (case loadImage H (dataUrl t) of
        None \<Rightarrow> drawImages H ts c
      | Some img \<Rightarrow> drawImages H ts (drawImage img 0 (scrollY t) c))"

definition processImages :: "host \<Rightarrow> screenshot list \<Rightarrow> page_dimensions \<Rightarrow> canvas" where
  "processImages H shots d =
     drawImages H shots
       (fillRect white 0 0 (width d) (height d) (createCanvas (width d) (height d)))"

definition processScreenshots :: "host \<Rightarrow> session \<Rightarrow> session" where
  "processScreenshots H s =
     (if currentTab s = None \<or> screenshots s = []
      then s\<lparr>console := console s @ [''No screenshots to process'']\<rparr>
      else (case dimensions s of
              Some d \<Rightarrow>
                if injectResolves H
                then s\<lparr>download := Some (processImages H (screenshots s) d)\<rparr>
                else s\<lparr>console := console s @ [''Failed to process screenshots:'']\<rparr>
            | None \<Rightarrow> s\<lparr>console := console s @ [''Failed to process screenshots:'']\<rparr>))"

partial_function (option) captureCurrentViewport :: "host \<Rightarrow> session \<Rightarrow> nat \<Rightarrow> session option" where
  "captureCurrentViewport H s scrollIndex =
     (case currentTab s of
        None \<Rightarrow> Some s
      | Some tab \<Rightarrow>
     (case dimensions s of
        None \<Rightarrow> Some s
      | Some d \<Rightarrow>
          let scrollStep = js_floor_mul_09 (viewportHeight d);
              totalScrolls = js_ceil_div (height d) scrollStep;
              currentScrollPos = int scrollIndex * scrollStep;
              s1 = s\<lparr>scrollRequests := scrollRequests s @ [currentScrollPos]\<rparr>
          in if \<not> scrollResolves H scrollIndex
             then Some (s1\<lparr>console := console s1 @ [''Failed to scroll to position:'']\<rparr>)
             else
               let s2 = s1\<lparr>pageScrollY := currentScrollPos\<rparr>
               in (case captureVisibleTab H scrollIndex of
                     None \<Rightarrow> Some (s2\<lparr>console := console s2 @ [''Failed to capture viewport:'']\<rparr>)
                   | Some url \<Rightarrow>
                       let s3 = s2\<lparr>screenshots :=
                                  screenshots s2 @ [\<lparr>dataUrl = url, scrollY = currentScrollPos\<rparr>]\<rparr>
                       in if js_less (int scrollIndex) (js_minus_one totalScrolls)
                             \<and> currentScrollPos + scrollStep < height d
                          then captureCurrentViewport H s3 (scrollIndex + 1)
                          else Some (processScreenshots H s3))))"

declare captureCurrentViewport.simps [code]

definition beginCapture :: "host \<Rightarrow> session \<Rightarrow> session option" where
  "beginCapture H s =
     (if currentTab s = None \<or> dimensions s = None
      then Some (s\<lparr>console := console s @ [''Missing tab or dimensions'']\<rparr>)
      else captureCurrentViewport H (s\<lparr>screenshots := []\<rparr>) 0)"

section \<open>Second \<open>background.js\<close>: \<open>for\<close> loop with viewport-height steps and a clamped placement\<close>

datatype rejection = ScrollRejected | CaptureRejected | RestoreRejected | InjectRejected

text \<open>
  The local \<open>screenshots\<close> of \<open>handleCapture\<close>, the page's scroll offset, the positions passed
  to \<open>window.scrollTo\<close>, the rejection that ends the \<open>async\<close> function early, and the canvas
  sent with \<open>downloadRequest\<close>.
\<close>

record handle_state =
  captured :: "placed_screenshot list"
  pageScroll :: int
  scrolledTo :: "int list"
  rejected :: "rejection option"
  downloaded :: "canvas option"

fun combineLoop :: "host \<Rightarrow> placed_screenshot list \<Rightarrow> canvas \<Rightarrow> canvas option" where
  \<comment> \<open>the \<open>for ... of\<close> loop of \<open>combineScreenshots\<close>: the awaited promise resolves in \<open>onload\<close>
      only, so an image that does not load stalls the loop for good (\<open>None\<close>)\<close>
  "combineLoop H [] c = Some c"
| "combineLoop H (t # ts) c =
     (case loadImage H (dataUrl t) of
        None \<Rightarrow> None
      | Some img \<Rightarrow> combineLoop H ts (drawImage img 0 (yPosition t) c))"

definition combineScreenshots :: "host \<Rightarrow> placed_screenshot list \<Rightarrow> int \<Rightarrow> int \<Rightarrow> canvas option" where
  "combineScreenshots H shots w h = combineLoop H shots (createCanvas w h)"

partial_function (option) captureSections ::
    "host \<Rightarrow> page_dimensions \<Rightarrow> handle_state \<Rightarrow> nat \<Rightarrow> handle_state option" where
  "captureSections H d st i =
     (let numFullScreenshots = js_ceil_div (height d) (viewportHeight d)
      in if js_less (int i) numFullScreenshots
         then
           let scrollTo = int i * viewportHeight d;
               st1 = st\<lparr>scrolledTo := scrolledTo st @ [scrollTo]\<rparr>
           in if \<not> scrollResolves H i
              then Some (st1\<lparr>rejected := Some ScrollRejected\<rparr>)
              else
                let st2 = st1\<lparr>pageScroll := scrollTo\<rparr>
                in (case captureVisibleTab H i of
                      None \<Rightarrow> Some (st2\<lparr>rejected := Some CaptureRejected\<rparr>)
                    | Some url \<Rightarrow>
                        captureSections H d
                          (st2\<lparr>captured := captured st2 @
                             [\<lparr>dataUrl = url,
                               yPosition = min (int i * viewportHeight d)
                                               (height d - viewportHeight d)\<rparr>]\<rparr>)
                          (i + 1))
         else Some st)"

declare captureSections.simps [code]

definition finishCapture :: "host \<Rightarrow> page_dimensions \<Rightarrow> handle_state \<Rightarrow> handle_state" where
  \<comment> \<open>what follows the loop in \<open>handleCapture\<close>: a rejected \<open>await\<close> skips the rest\<close>
  "finishCapture H d st =
     (if rejected st \<noteq> None then st
      else
        let st1 = st\<lparr>scrolledTo := scrolledTo st @ [originalScrollPos d]\<rparr>
        in if \<not> restoreResolves H
           then st1\<lparr>rejected := Some RestoreRejected\<rparr>
           else
             let st2 = st1\<lparr>pageScroll := originalScrollPos d\<rparr>
             in if \<not> injectResolves H
                then st2\<lparr>rejected := Some InjectRejected\<rparr>
                else st2\<lparr>downloaded :=
                       combineScreenshots H (captured st2) (width d) (height d)\<rparr>)"

definition handleCapture :: "host \<Rightarrow> nat \<Rightarrow> page_dimensions \<Rightarrow> int \<Rightarrow> handle_state option" where
  \<comment> \<open>\<open>y0\<close> is the page's scroll offset when the function is entered\<close>
  "handleCapture H tabId d y0 =
     map_option (finishCapture H d)
       (captureSections H d
          \<lparr>captured = [], pageScroll = y0, scrolledTo = [], rejected = None, downloaded = None\<rparr> 0)"

section \<open>Auxiliary notions for the statements\<close>

text \<open>
  The guard of the recursive call in \<open>captureCurrentViewport\<close>, the step, the session after
  tile \<open>i\<close> has been captured, and the number of tiles of a run with a positive step; then the
  number of iterations of the loop in \<open>handleCapture\<close>, the placement it records for section
  \<open>i\<close> and its state after that section; last, what it means for a tile to cover a pixel.
\<close>

definition scrollStepOf :: "page_dimensions \<Rightarrow> int" where
  "scrollStepOf d = js_floor_mul_09 (viewportHeight d)"

definition moreToCapture :: "page_dimensions \<Rightarrow> nat \<Rightarrow> bool" where
  "moreToCapture d i =
     (let scrollStep = js_floor_mul_09 (viewportHeight d)
      in js_less (int i) (js_minus_one (js_ceil_div (height d) scrollStep))
         \<and> int i * scrollStep + scrollStep < height d)"

definition captured_tile :: "page_dimensions \<Rightarrow> string \<Rightarrow> nat \<Rightarrow> session \<Rightarrow> session" where
  "captured_tile d url i s =
     s\<lparr>scrollRequests := scrollRequests s @ [int i * scrollStepOf d],
       pageScrollY := int i * scrollStepOf d,
       screenshots := screenshots s @ [\<lparr>dataUrl = url, scrollY = int i * scrollStepOf d\<rparr>]\<rparr>"

definition tileCount :: "page_dimensions \<Rightarrow> nat" where
  "tileCount d =
     (if height d \<le> 0 then 1 else nat (- ((- height d) div scrollStepOf d)))"

definition sectionCount :: "page_dimensions \<Rightarrow> nat" where
  "sectionCount d = nat (- ((- height d) div viewportHeight d))"

definition placement :: "page_dimensions \<Rightarrow> nat \<Rightarrow> int" where
  "placement d i = min (int i * viewportHeight d) (height d - viewportHeight d)"

definition captured_section :: "page_dimensions \<Rightarrow> string \<Rightarrow> nat \<Rightarrow> handle_state \<Rightarrow> handle_state" where
  "captured_section d url i st =
     st\<lparr>scrolledTo := scrolledTo st @ [int i * viewportHeight d],
        pageScroll := int i * viewportHeight d,
        captured := captured st @ [\<lparr>dataUrl = url, yPosition = placement d i\<rparr>]\<rparr>"

definition covered :: "host \<Rightarrow> screenshot \<Rightarrow> nat \<Rightarrow> nat \<Rightarrow> bool" where
  "covered H t x y =
     (case loadImage H (dataUrl t) of
        None \<Rightarrow> False
      | Some img \<Rightarrow>
          int x < int (iwidth img) \<and> scrollY t \<le> int y \<and> int y < scrollY t + int (iheight img))"

subsection \<open>Concrete hosts and pages\<close>

text \<open>
  A host on which every step succeeds and every capture is a red image of one pixel, a host
  whose capture of tile \<open>k\<close> is rejected, a host whose capture of tile \<open>k\<close> does not decode;
  an image whose rows differ in colour and a host whose captures decode to a given image; a
  page of a given extent, and the session right after the click on it.
\<close>

definition solid :: "nat \<Rightarrow> nat \<Rightarrow> colour \<Rightarrow> image" where
  "solid w h col = \<lparr>iwidth = w, iheight = h, ipixel = (\<lambda>x y. col)\<rparr>"

definition okHost :: host where
  "okHost =
     \<lparr>scrollResolves = (\<lambda>i. True), captureVisibleTab = (\<lambda>i. Some ''png''),
      restoreResolves = True, injectResolves = True,
      loadImage = (\<lambda>u. if u = ''png'' then Some (solid 1 1 (RGB 255 0 0)) else None)\<rparr>"

definition captureFailsAt :: "nat \<Rightarrow> host" where
  "captureFailsAt k =
     okHost\<lparr>captureVisibleTab := (\<lambda>i. if i = k then None else Some ''png'')\<rparr>"

definition corruptAt :: "nat \<Rightarrow> host" where
  "corruptAt k =
     okHost\<lparr>captureVisibleTab := (\<lambda>i. Some (if i = k then ''corrupt'' else ''png''))\<rparr>"

definition striped :: "nat \<Rightarrow> nat \<Rightarrow> image" where
  "striped w h = \<lparr>iwidth = w, iheight = h, ipixel = (\<lambda>x y. RGB 0 0 y)\<rparr>"

definition hostShowing :: "image \<Rightarrow> host" where
  "hostShowing img =
     okHost\<lparr>loadImage := (\<lambda>u. if u = ''png'' then Some img else None)\<rparr>"

definition page :: "int \<Rightarrow> int \<Rightarrow> int \<Rightarrow> int \<Rightarrow> page_dimensions" where
  "page w h y0 vh =
     \<lparr>width = w, height = h, originalScrollPos = y0, viewportHeight = vh, viewportWidth = w\<rparr>"

definition clicked :: "page_dimensions \<Rightarrow> session" where
  "clicked d =
     \<lparr>currentTab = Some 1, dimensions = Some d, screenshots = [],
      pageScrollY = originalScrollPos d, scrollRequests = [], console = [], download = None\<rparr>"

section \<open>The step arithmetic\<close>

lemma ceil_div_gt:
  fixes a b n :: int
  assumes "0 < b"
  shows "(n < - ((- a) div b)) = (n * b < a)"
proof -
  define q where "q = (- a) div b"
  define r where "r = (- a) mod b"
  have r: "0 \<le> r" "r < b" using assms by (simp_all add: r_def)
  have "q * b + r = - a"
    unfolding q_def r_def by (rule div_mult_mod_eq)
  then have a: "a = - (q * b) - r" by linarith
  show ?thesis
  proof
    assume "n < - (- a div b)"
    then have "n + 1 \<le> - q" by (simp add: q_def)
    then have "(n + 1) * b \<le> (- q) * b" using assms by (intro mult_right_mono) simp_all
    then show "n * b < a" using a r by (simp add: algebra_simps)
  next
    assume "n * b < a"
    then have "n * b < (- q) * b" using a r by simp
    then have "n < - q" using assms by (simp add: mult_less_cancel_right_pos del: mult_minus_left)
    then show "n < - (- a div b)" by (simp add: q_def)
  qed
qed

lemma ceil_div_antimono:
  fixes a b c :: int
  assumes "0 < a" "0 < b" "b \<le> c"
  shows "- ((- a) div c) \<le> - ((- a) div b)"
proof (rule ccontr)
  assume "\<not> ?thesis"
  then have lt: "- ((- a) div b) < - ((- a) div c)" by simp
  let ?n = "- ((- a) div b)"
  have c: "0 < c" using assms by simp
  have "?n * c < a" using ceil_div_gt [OF c, of ?n a] lt by simp
  moreover have "\<not> ?n * b < a" using ceil_div_gt [OF assms(2), of ?n a] by simp
  moreover have "0 < ?n" using ceil_div_gt [OF assms(2), of 0 a] assms(1) by simp
  then have "?n * b \<le> ?n * c" using assms(3) by (intro mult_left_mono) simp_all
  ultimately show False by linarith
qed

lemma moreToCapture_iff:
  assumes "0 < js_floor_mul_09 (viewportHeight d)"
  shows "moreToCapture d i = ((int i + 1) * js_floor_mul_09 (viewportHeight d) < height d)"
proof -
  have "(int i < - (- height d div js_floor_mul_09 (viewportHeight d)) - 1)
        = ((int i + 1) * js_floor_mul_09 (viewportHeight d) < height d)"
    using ceil_div_gt [OF assms, of "int i + 1" "height d"] by linarith
  then show ?thesis
    using assms by (auto simp: moreToCapture_def js_ceil_div_def Let_def algebra_simps)
qed

lemma moreToCapture_count:
  assumes "0 < scrollStepOf d"
  shows "moreToCapture d j = (Suc j < tileCount d)"
proof (cases "height d \<le> 0")
  case True
  have "0 < (int j + 1) * scrollStepOf d" using assms by simp
  with True have "\<not> (int j + 1) * scrollStepOf d < height d" by linarith
  then show ?thesis
    using True assms by (simp add: moreToCapture_iff tileCount_def scrollStepOf_def)
next
  case False
  have "(int j + 1 < - ((- height d) div scrollStepOf d)) = ((int j + 1) * scrollStepOf d < height d)"
    using ceil_div_gt [OF assms] .
  then show ?thesis
    using False assms by (auto simp: moreToCapture_iff tileCount_def scrollStepOf_def)
qed

lemma tileCount_pos: "0 < scrollStepOf d \<Longrightarrow> 0 < tileCount d"
  using ceil_div_gt [of "scrollStepOf d" 0 "height d"] by (auto simp: tileCount_def)

lemma below_tileCount:
  assumes "0 < scrollStepOf d" "0 < height d"
  shows "(j < tileCount d) = (int j * scrollStepOf d < height d)"
  using ceil_div_gt [OF assms(1), of "int j" "height d"] assms(2) by (auto simp: tileCount_def)

lemma offsets_cover:
  assumes step: "0 < scrollStepOf d" and le: "scrollStepOf d \<le> viewportHeight d"
    and y: "0 \<le> y" "y < height d"
  shows "\<exists>j < tileCount d. int j * scrollStepOf d \<le> y \<and> y < int j * scrollStepOf d + viewportHeight d"
proof -
  define j where "j = nat (y div scrollStepOf d)"
  have q: "0 \<le> y div scrollStepOf d" using step y by (simp add: pos_imp_zdiv_nonneg_iff)
  then have j: "int j = y div scrollStepOf d" by (simp add: j_def)
  have eq: "int j * scrollStepOf d + y mod scrollStepOf d = y"
    unfolding j by (rule div_mult_mod_eq)
  have "0 \<le> y mod scrollStepOf d" "y mod scrollStepOf d < scrollStepOf d"
    using step by simp_all
  with eq have lo: "int j * scrollStepOf d \<le> y" and hi: "y < int j * scrollStepOf d + scrollStepOf d"
    by linarith+
  have "j < tileCount d"
    using below_tileCount [OF step, of j] lo y by simp
  then show ?thesis using lo hi le by (intro exI [of _ j]) simp
qed

section \<open>The recursion of \<open>captureCurrentViewport\<close>\<close>

lemma captured_tile_fields:
  "currentTab (captured_tile d u i s) = currentTab s"
  "dimensions (captured_tile d u i s) = dimensions s"
  "screenshots (captured_tile d u i s) = screenshots s @ [\<lparr>dataUrl = u, scrollY = int i * scrollStepOf d\<rparr>]"
  "scrollRequests (captured_tile d u i s) = scrollRequests s @ [int i * scrollStepOf d]"
  "pageScrollY (captured_tile d u i s) = int i * scrollStepOf d"
  "console (captured_tile d u i s) = console s"
  "download (captured_tile d u i s) = download s"
  by (simp_all add: captured_tile_def)

text \<open>One unfolding of the recursion, by the outcome of the tile's scroll and capture steps.\<close>

lemma tile_scroll_fails:
  assumes "currentTab s = Some t" "dimensions s = Some d" "\<not> scrollResolves H i"
  shows "captureCurrentViewport H s i =
           Some (s\<lparr>scrollRequests := scrollRequests s @ [int i * scrollStepOf d],
                   console := console s @ [''Failed to scroll to position:'']\<rparr>)"
  using assms by (subst captureCurrentViewport.simps) (simp add: Let_def scrollStepOf_def)

lemma tile_capture_fails:
  assumes "currentTab s = Some t" "dimensions s = Some d" "scrollResolves H i"
    "captureVisibleTab H i = None"
  shows "captureCurrentViewport H s i =
           Some (s\<lparr>scrollRequests := scrollRequests s @ [int i * scrollStepOf d],
                   pageScrollY := int i * scrollStepOf d,
                   console := console s @ [''Failed to capture viewport:'']\<rparr>)"
  using assms by (subst captureCurrentViewport.simps) (simp add: Let_def scrollStepOf_def)

lemma tile_continues:
  assumes "currentTab s = Some t" "dimensions s = Some d" "scrollResolves H i"
    "captureVisibleTab H i = Some u" "moreToCapture d i"
  shows "captureCurrentViewport H s i = captureCurrentViewport H (captured_tile d u i s) (Suc i)"
  using assms
  by (subst captureCurrentViewport.simps)
     (simp add: Let_def scrollStepOf_def moreToCapture_def captured_tile_def)

lemma tile_last:
  assumes "currentTab s = Some t" "dimensions s = Some d" "scrollResolves H i"
    "captureVisibleTab H i = Some u" "\<not> moreToCapture d i"
  shows "captureCurrentViewport H s i = Some (processScreenshots H (captured_tile d u i s))"
  using assms
  by (subst captureCurrentViewport.simps)
     (auto simp: Let_def scrollStepOf_def moreToCapture_def captured_tile_def)

lemma screenshots_processScreenshots: "screenshots (processScreenshots H s) = screenshots s"
  by (simp add: processScreenshots_def split: option.splits)

lemma scroll_processScreenshots:
  "pageScrollY (processScreenshots H s) = pageScrollY s"
  "scrollRequests (processScreenshots H s) = scrollRequests s"
  by (simp_all add: processScreenshots_def split: option.splits)

text \<open>The whole run when no step fails: tiles \<open>i, \<dots>, k\<close> are recorded and the images are processed.\<close>

lemma capture_run_completes:
  assumes "currentTab s = Some t" "dimensions s = Some d" "i \<le> k"
    and ok: "\<forall>j. i \<le> j \<and> j \<le> k \<longrightarrow> scrollResolves H j \<and> captureVisibleTab H j \<noteq> None"
    and more: "\<forall>j. i \<le> j \<and> j < k \<longrightarrow> moreToCapture d j"
    and last: "\<not> moreToCapture d k"
  shows "\<exists>s'. captureCurrentViewport H s i = Some (processScreenshots H s')
           \<and> currentTab s' = currentTab s \<and> dimensions s' = dimensions s
           \<and> map scrollY (screenshots s') =
               map scrollY (screenshots s) @ map (\<lambda>j. int j * scrollStepOf d) [i..<Suc k]
           \<and> scrollRequests s' =
               scrollRequests s @ map (\<lambda>j. int j * scrollStepOf d) [i..<Suc k]
           \<and> pageScrollY s' = int k * scrollStepOf d
           \<and> console s' = console s \<and> download s' = download s"
  using assms
proof (induction "k - i" arbitrary: s i)
  case 0
  then have ik: "i = k" by simp
  from 0 ik obtain u where u: "captureVisibleTab H k = Some u" and sr: "scrollResolves H k"
    by auto
  have "captureCurrentViewport H s i = Some (processScreenshots H (captured_tile d u k s))"
    using tile_last [OF "0.prems"(1,2), of H k u] sr u "0.prems"(6) ik by simp
  then show ?case
    by (intro exI [of _ "captured_tile d u k s"]) (simp add: captured_tile_fields ik)
next
  case (Suc n)
  then have ik: "i < k" by simp
  from Suc.prems ik obtain u where u: "captureVisibleTab H i = Some u" and sr: "scrollResolves H i"
    by (metis le_refl less_imp_le_nat not_Some_eq)
  have m: "moreToCapture d i" using Suc.prems ik by simp
  let ?s = "captured_tile d u i s"
  have step: "captureCurrentViewport H s i = captureCurrentViewport H ?s (Suc i)"
    using tile_continues [OF Suc.prems(1,2) sr u m] .
  have "\<exists>s'. captureCurrentViewport H ?s (Suc i) = Some (processScreenshots H s')
           \<and> currentTab s' = currentTab ?s \<and> dimensions s' = dimensions ?s
           \<and> map scrollY (screenshots s') =
               map scrollY (screenshots ?s) @ map (\<lambda>j. int j * scrollStepOf d) [Suc i..<Suc k]
           \<and> scrollRequests s' =
               scrollRequests ?s @ map (\<lambda>j. int j * scrollStepOf d) [Suc i..<Suc k]
           \<and> pageScrollY s' = int k * scrollStepOf d
           \<and> console s' = console ?s \<and> download s' = download ?s"
  proof (rule Suc.hyps(1))
    show "n = k - Suc i" using Suc.hyps(2) by simp
    show "currentTab ?s = Some t" using Suc.prems(1) by (simp add: captured_tile_fields)
    show "dimensions ?s = Some d" using Suc.prems(2) by (simp add: captured_tile_fields)
    show "Suc i \<le> k" using ik by simp
    show "\<forall>j. Suc i \<le> j \<and> j \<le> k \<longrightarrow> scrollResolves H j \<and> captureVisibleTab H j \<noteq> None"
      using Suc.prems(4) by simp
    show "\<forall>j. Suc i \<le> j \<and> j < k \<longrightarrow> moreToCapture d j" using Suc.prems(5) by simp
    show "\<not> moreToCapture d k" using Suc.prems(6) .
  qed
  then obtain s' where s': "captureCurrentViewport H ?s (Suc i) = Some (processScreenshots H s')"
    "currentTab s' = currentTab ?s" "dimensions s' = dimensions ?s"
    "map scrollY (screenshots s') =
       map scrollY (screenshots ?s) @ map (\<lambda>j. int j * scrollStepOf d) [Suc i..<Suc k]"
    "scrollRequests s' = scrollRequests ?s @ map (\<lambda>j. int j * scrollStepOf d) [Suc i..<Suc k]"
    "pageScrollY s' = int k * scrollStepOf d"
    "console s' = console ?s" "download s' = download ?s"
    by blast
  have upt: "[i..<Suc k] = i # [Suc i..<Suc k]" using ik by (simp add: upt_conv_Cons)
  show ?case
    using step s' by (intro exI [of _ s']) (simp add: captured_tile_fields upt del: upt_Suc)
qed

lemma beginCapture_completes:
  assumes tab: "currentTab s = Some t" and dims: "dimensions s = Some d"
    and step: "0 < scrollStepOf d"
    and ok: "\<forall>j < tileCount d. scrollResolves H j \<and> captureVisibleTab H j \<noteq> None"
  shows "\<exists>s'. beginCapture H s = Some (processScreenshots H s')
           \<and> currentTab s' = currentTab s \<and> dimensions s' = dimensions s
           \<and> map scrollY (screenshots s') = map (\<lambda>j. int j * scrollStepOf d) [0..<tileCount d]
           \<and> scrollRequests s' =
               scrollRequests s @ map (\<lambda>j. int j * scrollStepOf d) [0..<tileCount d]
           \<and> pageScrollY s' = int (tileCount d - 1) * scrollStepOf d
           \<and> console s' = console s \<and> download s' = download s"
proof -
  obtain k where k: "tileCount d = Suc k"
    using tileCount_pos [OF step] by (cases "tileCount d") simp_all
  let ?s = "s\<lparr>screenshots := []\<rparr>"
  have "\<exists>s'. captureCurrentViewport H ?s 0 = Some (processScreenshots H s')
           \<and> currentTab s' = currentTab ?s \<and> dimensions s' = dimensions ?s
           \<and> map scrollY (screenshots s') =
               map scrollY (screenshots ?s) @ map (\<lambda>j. int j * scrollStepOf d) [0..<Suc k]
           \<and> scrollRequests s' =
               scrollRequests ?s @ map (\<lambda>j. int j * scrollStepOf d) [0..<Suc k]
           \<and> pageScrollY s' = int k * scrollStepOf d
           \<and> console s' = console ?s \<and> download s' = download ?s"
  proof (rule capture_run_completes)
    show "currentTab ?s = Some t" using tab by simp
    show "dimensions ?s = Some d" using dims by simp
    show "0 \<le> k" by simp
    show "\<forall>j. 0 \<le> j \<and> j \<le> k \<longrightarrow> scrollResolves H j \<and> captureVisibleTab H j \<noteq> None"
      using ok k by simp
    show "\<forall>j. 0 \<le> j \<and> j < k \<longrightarrow> moreToCapture d j"
      using k by (simp add: moreToCapture_count [OF step])
    show "\<not> moreToCapture d k"
      using k by (simp add: moreToCapture_count [OF step])
  qed
  then show ?thesis
    using tab dims by (simp add: beginCapture_def k del: upt_Suc)
qed

text \<open>With a positive step the recursion returns whatever the host answers.\<close>

lemma capture_run_terminates:
  assumes "currentTab s = Some t" "dimensions s = Some d" "0 < scrollStepOf d" "i < tileCount d"
  shows "\<exists>s'. captureCurrentViewport H s i = Some s'
           \<and> length (scrollRequests s') \<le> length (scrollRequests s) + (tileCount d - i)"
  using assms
proof (induction "tileCount d - i" arbitrary: s i)
  case 0
  then show ?case by simp
next
  case (Suc n)
  show ?case
  proof (cases "scrollResolves H i")
    case False
    show ?thesis
      using tile_scroll_fails [OF Suc.prems(1,2) False] Suc.prems(4) by simp
  next
    case sr: True
    show ?thesis
    proof (cases "captureVisibleTab H i")
      case None
      show ?thesis
        using tile_capture_fails [OF Suc.prems(1,2) sr None] Suc.prems(4) by simp
    next
      case (Some u)
      let ?s = "captured_tile d u i s"
      show ?thesis
      proof (cases "moreToCapture d i")
        case False
        show ?thesis
          using tile_last [OF Suc.prems(1,2) sr Some False] Suc.prems(4)
          by (simp add: scroll_processScreenshots captured_tile_fields)
      next
        case True
        then have lt: "Suc i < tileCount d" by (simp add: moreToCapture_count [OF Suc.prems(3)])
        have "\<exists>s'. captureCurrentViewport H ?s (Suc i) = Some s'
                \<and> length (scrollRequests s') \<le> length (scrollRequests ?s) + (tileCount d - Suc i)"
        proof (rule Suc.hyps(1))
          show "n = tileCount d - Suc i" using Suc.hyps(2) by simp
          show "currentTab ?s = Some t" using Suc.prems(1) by (simp add: captured_tile_fields)
          show "dimensions ?s = Some d" using Suc.prems(2) by (simp add: captured_tile_fields)
          show "0 < scrollStepOf d" by fact
          show "Suc i < tileCount d" by fact
        qed
        then show ?thesis
          using tile_continues [OF Suc.prems(1,2) sr Some True] lt
          by (auto simp: captured_tile_fields)
      qed
    qed
  qed
qed

text \<open>With a step of 0 on a page of positive height the recursion goes on as long as the host succeeds.\<close>

lemma capture_run_diverges_aux:
  assumes step: "scrollStepOf d = 0" and tall: "0 < height d"
    and ok: "\<forall>j. scrollResolves H j \<and> captureVisibleTab H j \<noteq> None"
    and run: "captureCurrentViewport H s i = Some y"
  shows "\<not> (currentTab s \<noteq> None \<and> dimensions s = Some d)"
proof -
  have "H = H \<longrightarrow> \<not> (currentTab s \<noteq> None \<and> dimensions s = Some d)"
  proof (rule captureCurrentViewport.raw_induct
    [where P = "\<lambda>H' s i y. H' = H \<longrightarrow> \<not> (currentTab s \<noteq> None \<and> dimensions s = Some d)", OF _ run])
    fix run :: "host \<Rightarrow> session \<Rightarrow> nat \<Rightarrow> session option" and H' s i y
    assume IH: "\<And>H' s i y. run H' s i = Some y \<Longrightarrow>
                  H' = H \<longrightarrow> \<not> (currentTab s \<noteq> None \<and> dimensions s = Some d)"
    assume body: "(case currentTab s of
          None \<Rightarrow> Some s
        | Some tab \<Rightarrow>
       (case dimensions s of
          None \<Rightarrow> Some s
        | Some d \<Rightarrow>
            let scrollStep = js_floor_mul_09 (viewportHeight d);
                totalScrolls = js_ceil_div (height d) scrollStep;
                currentScrollPos = int i * scrollStep;
                s1 = s\<lparr>scrollRequests := scrollRequests s @ [currentScrollPos]\<rparr>
            in if \<not> scrollResolves H' i
               then Some (s1\<lparr>console := console s1 @ [''Failed to scroll to position:'']\<rparr>)
               else
                 let s2 = s1\<lparr>pageScrollY := currentScrollPos\<rparr>
                 in (case captureVisibleTab H' i of
                       None \<Rightarrow> Some (s2\<lparr>console := console s2 @ [''Failed to capture viewport:'']\<rparr>)
                     | Some url \<Rightarrow>
                         let s3 = s2\<lparr>screenshots :=
                                    screenshots s2 @ [\<lparr>dataUrl = url, scrollY = currentScrollPos\<rparr>]\<rparr>
                         in if js_less (int i) (js_minus_one totalScrolls)
                               \<and> currentScrollPos + scrollStep < height d
                            then run H' s3 (i + 1)
                            else Some (processScreenshots H' s3)))) = Some y"
    show "H' = H \<longrightarrow> \<not> (currentTab s \<noteq> None \<and> dimensions s = Some d)"
    proof (intro impI notI)
      assume H': "H' = H" and "currentTab s \<noteq> None \<and> dimensions s = Some d"
      then obtain t where c: "currentTab s = Some t" "dimensions s = Some d" by auto
      from ok obtain u where u: "captureVisibleTab H i = Some u" by auto
      have "run H (captured_tile d u i s) (i + 1) = Some y"
        using body c u ok step tall unfolding H'
        by (simp add: Let_def js_ceil_div_def scrollStepOf_def captured_tile_def)
      from IH [OF this] show False
        using c by (simp add: captured_tile_fields)
    qed
  qed
  then show ?thesis by simp
qed

lemma capture_run_diverges:
  assumes "currentTab s = Some t" "dimensions s = Some d" "scrollStepOf d = 0" "0 < height d"
    "\<forall>j. scrollResolves H j \<and> captureVisibleTab H j \<noteq> None"
  shows "captureCurrentViewport H s i = None"
proof (cases "captureCurrentViewport H s i")
  case None
  then show ?thesis .
next
  case (Some y)
  from capture_run_diverges_aux [OF assms(3,4,5) Some] assms(1,2) show ?thesis by simp
qed

text \<open>The run up to the first failing step.\<close>

lemma capture_run_aborts:
  assumes "currentTab s = Some t" "dimensions s = Some d" "i \<le> k"
    and ok: "\<forall>j. i \<le> j \<and> j < k \<longrightarrow>
               scrollResolves H j \<and> captureVisibleTab H j \<noteq> None \<and> moreToCapture d j"
    and fail: "\<not> scrollResolves H k \<or> captureVisibleTab H k = None"
  shows "\<exists>s'. captureCurrentViewport H s i = Some s'
           \<and> map scrollY (screenshots s') =
               map scrollY (screenshots s) @ map (\<lambda>j. int j * scrollStepOf d) [i..<k]
           \<and> scrollRequests s' =
               scrollRequests s @ map (\<lambda>j. int j * scrollStepOf d) [i..<Suc k]
           \<and> pageScrollY s' =
               (if scrollResolves H k then int k * scrollStepOf d
                else if i < k then int (k - 1) * scrollStepOf d else pageScrollY s)
           \<and> console s' = console s @
               [if scrollResolves H k then ''Failed to capture viewport:''
                else ''Failed to scroll to position:'']
           \<and> download s' = download s"
  using assms
proof (induction "k - i" arbitrary: s i)
  case 0
  then have ik: "i = k" by simp
  show ?case
  proof (cases "scrollResolves H k")
    case False
    show ?thesis
      using tile_scroll_fails [OF "0.prems"(1,2), of H k] False ik by simp
  next
    case True
    with "0.prems"(5) have "captureVisibleTab H k = None" by simp
    from tile_capture_fails [OF "0.prems"(1,2) True this] show ?thesis
      using True ik by simp
  qed
next
  case (Suc n)
  then have ik: "i < k" by simp
  from Suc.prems(4) ik obtain u where u: "captureVisibleTab H i = Some u"
    and sr: "scrollResolves H i" and m: "moreToCapture d i"
    by (metis le_refl not_Some_eq)
  let ?s = "captured_tile d u i s"
  have step: "captureCurrentViewport H s i = captureCurrentViewport H ?s (Suc i)"
    using tile_continues [OF Suc.prems(1,2) sr u m] .
  have "\<exists>s'. captureCurrentViewport H ?s (Suc i) = Some s'
           \<and> map scrollY (screenshots s') =
               map scrollY (screenshots ?s) @ map (\<lambda>j. int j * scrollStepOf d) [Suc i..<k]
           \<and> scrollRequests s' =
               scrollRequests ?s @ map (\<lambda>j. int j * scrollStepOf d) [Suc i..<Suc k]
           \<and> pageScrollY s' =
               (if scrollResolves H k then int k * scrollStepOf d
                else if Suc i < k then int (k - 1) * scrollStepOf d else pageScrollY ?s)
           \<and> console s' = console ?s @
               [if scrollResolves H k then ''Failed to capture viewport:''
                else ''Failed to scroll to position:'']
           \<and> download s' = download ?s"
  proof (rule Suc.hyps(1))
    show "n = k - Suc i" using Suc.hyps(2) by simp
    show "currentTab ?s = Some t" using Suc.prems(1) by (simp add: captured_tile_fields)
    show "dimensions ?s = Some d" using Suc.prems(2) by (simp add: captured_tile_fields)
    show "Suc i \<le> k" using ik by simp
    show "\<forall>j. Suc i \<le> j \<and> j < k \<longrightarrow>
            scrollResolves H j \<and> captureVisibleTab H j \<noteq> None \<and> moreToCapture d j"
      using Suc.prems(4) by simp
    show "\<not> scrollResolves H k \<or> captureVisibleTab H k = None" by fact
  qed
  then obtain s' where s': "captureCurrentViewport H ?s (Suc i) = Some s'"
    "map scrollY (screenshots s') =
       map scrollY (screenshots ?s) @ map (\<lambda>j. int j * scrollStepOf d) [Suc i..<k]"
    "scrollRequests s' = scrollRequests ?s @ map (\<lambda>j. int j * scrollStepOf d) [Suc i..<Suc k]"
    "pageScrollY s' =
               (if scrollResolves H k then int k * scrollStepOf d
                else if Suc i < k then int (k - 1) * scrollStepOf d else pageScrollY ?s)"
    "console s' = console ?s @
               [if scrollResolves H k then ''Failed to capture viewport:''
                else ''Failed to scroll to position:'']"
    "download s' = download ?s"
    by blast
  have upt: "[i..<Suc k] = i # [Suc i..<Suc k]" "[i..<k] = i # [Suc i..<k]"
    using ik by (simp_all add: upt_conv_Cons)
  have page: "\<not> Suc i < k \<Longrightarrow> int (k - 1) = int i" using ik by simp
  show ?case
    using step s' ik page
    by (intro exI [of _ s']) (simp add: captured_tile_fields upt del: upt_Suc)
qed

text \<open>A page at least as tall as its viewport always gets a second tile.\<close>

lemma full_viewport_second_tile:
  assumes tab: "currentTab s = Some t" and dims: "dimensions s = Some d"
    and vh: "2 \<le> viewportHeight d" and tall: "viewportHeight d \<le> height d"
    and ok: "\<forall>j. scrollResolves H j \<and> captureVisibleTab H j \<noteq> None"
  shows "\<exists>s'. beginCapture H s = Some s' \<and> 2 \<le> length (screenshots s')
           \<and> map scrollY (take 2 (screenshots s')) = [0, js_floor_mul_09 (viewportHeight d)]"
proof -
  have step: "0 < scrollStepOf d" using vh by (simp add: scrollStepOf_def js_floor_mul_09_def)
  have "scrollStepOf d < viewportHeight d"
    using vh by (simp add: scrollStepOf_def js_floor_mul_09_def)
  with tall have "(int 0 + 1) * js_floor_mul_09 (viewportHeight d) < height d"
    by (simp add: scrollStepOf_def)
  then have "moreToCapture d 0"
    using step by (simp add: moreToCapture_iff scrollStepOf_def)
  then have "Suc 0 < tileCount d" by (simp add: moreToCapture_count [OF step])
  then obtain n where n: "tileCount d = Suc (Suc n)"
    by (cases "tileCount d") (simp, rename_tac m, case_tac m, simp_all)
  from beginCapture_completes [OF tab dims step] ok
  obtain s' where s': "beginCapture H s = Some (processScreenshots H s')"
    "map scrollY (screenshots s') = map (\<lambda>j. int j * scrollStepOf d) [0..<tileCount d]"
    by auto
  have upt: "[0..<Suc (Suc n)] = 0 # Suc 0 # [Suc (Suc 0)..<Suc (Suc n)]"
    by (simp add: upt_conv_Cons)
  from s'(2) have m: "map scrollY (screenshots s')
      = 0 # scrollStepOf d # map (\<lambda>j. int j * scrollStepOf d) [Suc (Suc 0)..<Suc (Suc n)]"
    unfolding n upt by simp
  have "length (map scrollY (screenshots s'))
      = length (map (\<lambda>j. int j * scrollStepOf d) [0..<tileCount d])"
    using s'(2) by (rule arg_cong)
  then have len: "2 \<le> length (screenshots s')" using n by simp
  have "map scrollY (take 2 (screenshots s')) = take 2 (map scrollY (screenshots s'))"
    by (simp add: take_map)
  also have "\<dots> = [0, scrollStepOf d]" unfolding m by (simp add: numeral_2_eq_2)
  finally show ?thesis
    using s'(1) len by (simp add: screenshots_processScreenshots scrollStepOf_def)
qed

section \<open>The loop of \<open>handleCapture\<close>\<close>

lemma captured_section_fields:
  "captured (captured_section d u i st) = captured st @ [\<lparr>dataUrl = u, yPosition = placement d i\<rparr>]"
  "scrolledTo (captured_section d u i st) = scrolledTo st @ [int i * viewportHeight d]"
  "pageScroll (captured_section d u i st) = int i * viewportHeight d"
  "rejected (captured_section d u i st) = rejected st"
  "downloaded (captured_section d u i st) = downloaded st"
  by (simp_all add: captured_section_def)

lemma in_loop_iff:
  "0 < viewportHeight d \<Longrightarrow>
   js_less (int i) (js_ceil_div (height d) (viewportHeight d)) = (i < sectionCount d)"
  by (auto simp: js_ceil_div_def sectionCount_def)

lemma below_sectionCount:
  assumes "0 < viewportHeight d"
  shows "(i < sectionCount d) = (int i * viewportHeight d < height d)"
  using ceil_div_gt [OF assms, of "int i" "height d"] by (auto simp: sectionCount_def)

lemma section_loop_exit:
  assumes "0 < viewportHeight d" "\<not> i < sectionCount d"
  shows "captureSections H d st i = Some st"
  using assms by (subst captureSections.simps) (simp add: in_loop_iff)

lemma section_scroll_fails:
  assumes "0 < viewportHeight d" "i < sectionCount d" "\<not> scrollResolves H i"
  shows "captureSections H d st i =
           Some (st\<lparr>scrolledTo := scrolledTo st @ [int i * viewportHeight d],
                    rejected := Some ScrollRejected\<rparr>)"
  using assms by (subst captureSections.simps) (simp add: in_loop_iff Let_def)

lemma section_capture_fails:
  assumes "0 < viewportHeight d" "i < sectionCount d" "scrollResolves H i"
    "captureVisibleTab H i = None"
  shows "captureSections H d st i =
           Some (st\<lparr>scrolledTo := scrolledTo st @ [int i * viewportHeight d],
                    pageScroll := int i * viewportHeight d,
                    rejected := Some CaptureRejected\<rparr>)"
  using assms by (subst captureSections.simps) (simp add: in_loop_iff Let_def)

lemma section_continues:
  assumes "0 < viewportHeight d" "i < sectionCount d" "scrollResolves H i"
    "captureVisibleTab H i = Some u"
  shows "captureSections H d st i = captureSections H d (captured_section d u i st) (Suc i)"
  using assms
  by (subst captureSections.simps)
     (simp add: in_loop_iff Let_def captured_section_def placement_def)

lemma sections_complete:
  assumes vh: "0 < viewportHeight d" and "i \<le> sectionCount d"
    and ok: "\<forall>j. i \<le> j \<and> j < sectionCount d \<longrightarrow>
               scrollResolves H j \<and> captureVisibleTab H j \<noteq> None"
  shows "\<exists>st'. captureSections H d st i = Some st'
           \<and> map yPosition (captured st') =
               map yPosition (captured st) @ map (placement d) [i..<sectionCount d]
           \<and> scrolledTo st' =
               scrolledTo st @ map (\<lambda>j. int j * viewportHeight d) [i..<sectionCount d]
           \<and> rejected st' = rejected st \<and> downloaded st' = downloaded st"
  using assms
proof (induction "sectionCount d - i" arbitrary: st i)
  case 0
  then have "\<not> i < sectionCount d" by simp
  from section_loop_exit [OF vh this] show ?case
    using 0 by simp
next
  case (Suc n)
  then have lt: "i < sectionCount d" by simp
  with Suc.prems(3) obtain u where u: "captureVisibleTab H i = Some u" and sr: "scrollResolves H i"
    by (metis le_refl not_Some_eq)
  let ?st = "captured_section d u i st"
  have "\<exists>st'. captureSections H d ?st (Suc i) = Some st'
           \<and> map yPosition (captured st') =
               map yPosition (captured ?st) @ map (placement d) [Suc i..<sectionCount d]
           \<and> scrolledTo st' =
               scrolledTo ?st @ map (\<lambda>j. int j * viewportHeight d) [Suc i..<sectionCount d]
           \<and> rejected st' = rejected ?st \<and> downloaded st' = downloaded ?st"
  proof (rule Suc.hyps(1))
    show "n = sectionCount d - Suc i" using Suc.hyps(2) by simp
    show "0 < viewportHeight d" by fact
    show "Suc i \<le> sectionCount d" using lt by simp
    show "\<forall>j. Suc i \<le> j \<and> j < sectionCount d \<longrightarrow>
            scrollResolves H j \<and> captureVisibleTab H j \<noteq> None"
      using Suc.prems(3) by simp
  qed
  then obtain st' where st': "captureSections H d ?st (Suc i) = Some st'"
    "map yPosition (captured st') =
       map yPosition (captured ?st) @ map (placement d) [Suc i..<sectionCount d]"
    "scrolledTo st' =
       scrolledTo ?st @ map (\<lambda>j. int j * viewportHeight d) [Suc i..<sectionCount d]"
    "rejected st' = rejected ?st" "downloaded st' = downloaded ?st"
    by blast
  have upt: "[i..<sectionCount d] = i # [Suc i..<sectionCount d]"
    using lt by (simp add: upt_conv_Cons)
  show ?case
    using section_continues [OF vh lt sr u, of st] st'
    by (intro exI [of _ st']) (simp add: captured_section_fields upt)
qed

lemma sections_terminate:
  assumes vh: "0 < viewportHeight d"
  shows "\<exists>st'. captureSections H d st i = Some st'
           \<and> length (scrolledTo st') \<le> length (scrolledTo st) + (sectionCount d - i)"
proof (induction "sectionCount d - i" arbitrary: st i)
  case 0
  then have "\<not> i < sectionCount d" by simp
  from section_loop_exit [OF vh this] show ?case by simp
next
  case (Suc n)
  then have lt: "i < sectionCount d" by simp
  show ?case
  proof (cases "scrollResolves H i")
    case False
    from section_scroll_fails [OF vh lt False] show ?thesis using lt by simp
  next
    case sr: True
    show ?thesis
    proof (cases "captureVisibleTab H i")
      case None
      from section_capture_fails [OF vh lt sr None] show ?thesis using lt by simp
    next
      case (Some u)
      let ?st = "captured_section d u i st"
      have "\<exists>st'. captureSections H d ?st (Suc i) = Some st'
           \<and> length (scrolledTo st') \<le> length (scrolledTo ?st) + (sectionCount d - Suc i)"
        by (rule Suc.hyps(1)) (use Suc.hyps(2) in simp)
      then show ?thesis
        using section_continues [OF vh lt sr Some, of st] lt
        by (auto simp: captured_section_fields)
    qed
  qed
qed

lemma placements_cover:
  assumes vh: "0 < viewportHeight d" and y: "0 \<le> y" "y < height d"
  shows "\<exists>j < sectionCount d. placement d j \<le> y \<and> y < placement d j + viewportHeight d"
proof -
  define j where "j = nat (y div viewportHeight d)"
  have "0 \<le> y div viewportHeight d" using vh y by (simp add: pos_imp_zdiv_nonneg_iff)
  then have j: "int j = y div viewportHeight d" by (simp add: j_def)
  have eq: "int j * viewportHeight d + y mod viewportHeight d = y"
    unfolding j by (rule div_mult_mod_eq)
  have "0 \<le> y mod viewportHeight d" "y mod viewportHeight d < viewportHeight d"
    using vh by simp_all
  with eq have lo: "int j * viewportHeight d \<le> y"
    and hi: "y < int j * viewportHeight d + viewportHeight d"
    by linarith+
  have "j < sectionCount d"
    using below_sectionCount [OF vh, of j] lo y by simp
  then show ?thesis
    using lo hi y by (intro exI [of _ j]) (auto simp: placement_def)
qed

lemma placement_before_last:
  assumes "0 < viewportHeight d" "Suc j < sectionCount d"
  shows "placement d j = int j * viewportHeight d"
    and "int j * viewportHeight d < height d - viewportHeight d"
proof -
  have "int (Suc j) * viewportHeight d < height d"
    using below_sectionCount [OF assms(1), of "Suc j"] assms(2) by simp
  then show "int j * viewportHeight d < height d - viewportHeight d"
    by (simp add: algebra_simps)
  then show "placement d j = int j * viewportHeight d" by (simp add: placement_def)
qed

lemma placement_last:
  assumes "0 < viewportHeight d" "sectionCount d = Suc k"
  shows "placement d k = height d - viewportHeight d"
proof -
  have "\<not> int (Suc k) * viewportHeight d < height d"
    using below_sectionCount [OF assms(1), of "Suc k"] assms(2) by simp
  then show ?thesis by (simp add: placement_def algebra_simps)
qed

lemma placements_increase:
  assumes vh: "0 < viewportHeight d" and tall: "viewportHeight d < height d"
  shows "sorted_wrt (<) (map (placement d) [0..<sectionCount d])"
    and "last (map (placement d) [0..<sectionCount d]) = height d - viewportHeight d"
proof -
  have "0 < sectionCount d"
    using below_sectionCount [OF vh, of 0] vh tall by simp
  then obtain k where k: "sectionCount d = Suc k" by (cases "sectionCount d") simp_all
  show "last (map (placement d) [0..<sectionCount d]) = height d - viewportHeight d"
    using placement_last [OF vh k] by (simp add: k)
  show "sorted_wrt (<) (map (placement d) [0..<sectionCount d])"
  proof (subst sorted_wrt_iff_nth_less, intro allI impI)
    fix i j
    assume ij: "i < j" and j: "j < length (map (placement d) [0..<sectionCount d])"
    then have jn: "j < sectionCount d" and "Suc i < sectionCount d" by simp_all
    from placement_before_last [OF vh this(2)]
    have pi: "placement d i = int i * viewportHeight d"
      "int i * viewportHeight d < height d - viewportHeight d" .
    have "int i * viewportHeight d < int j * viewportHeight d" using ij vh by simp
    with pi have "placement d i < placement d j" by (simp add: placement_def)
    then show "map (placement d) [0..<sectionCount d] ! i < map (placement d) [0..<sectionCount d] ! j"
      using ij jn by simp
  qed
qed

lemma captured_finishCapture: "captured (finishCapture H d st) = captured st"
  by (simp add: finishCapture_def Let_def)

lemma handleCapture_placements:
  assumes vh: "0 < viewportHeight d" and tall: "viewportHeight d < height d"
    and ok: "\<forall>j. scrollResolves H j \<and> captureVisibleTab H j \<noteq> None"
  shows "\<exists>st. handleCapture H tabId d y0 = Some st
           \<and> sorted_wrt (<) (map yPosition (captured st))
           \<and> last (map yPosition (captured st)) = height d - viewportHeight d"
proof -
  let ?st0 = "\<lparr>captured = [], pageScroll = y0, scrolledTo = [], rejected = None, downloaded = None\<rparr>"
  from sections_complete [OF vh, of 0 H ?st0] ok
  obtain st' where st': "captureSections H d ?st0 0 = Some st'"
    "map yPosition (captured st') = map (placement d) [0..<sectionCount d]"
    by auto
  show ?thesis
    using st' placements_increase [OF vh tall]
    by (simp add: handleCapture_def captured_finishCapture)
qed

lemma handleCapture_single_viewport:
  assumes vh: "0 < viewportHeight d" and same: "height d = viewportHeight d"
    and ok: "scrollResolves H 0" "captureVisibleTab H 0 = Some u"
  shows "\<exists>st. handleCapture H tabId d y0 = Some st
           \<and> captured st = [\<lparr>dataUrl = u, yPosition = 0\<rparr>]"
proof -
  have n: "sectionCount d = 1" using vh same by (simp add: sectionCount_def zdiv_zminus1_eq_if)
  let ?st0 = "\<lparr>captured = [], pageScroll = y0, scrolledTo = [], rejected = None, downloaded = None\<rparr>"
  have "captureSections H d ?st0 0 = captureSections H d (captured_section d u 0 ?st0) (Suc 0)"
    by (rule section_continues [OF vh _ ok]) (simp add: n)
  also have "\<dots> = Some (captured_section d u 0 ?st0)"
    by (rule section_loop_exit [OF vh]) (simp add: n)
  finally show ?thesis
    using same by (simp add: handleCapture_def captured_finishCapture captured_section_fields placement_def)
qed

lemma finishCapture_after_rejection:
  "rejected st \<noteq> None \<Longrightarrow> finishCapture H d st = st"
  by (simp add: finishCapture_def)

lemma handleCapture_restores:
  assumes "handleCapture H tabId d y0 = Some st" "rejected st = None"
  shows "pageScroll st = originalScrollPos d \<and> last (scrolledTo st) = originalScrollPos d"
proof -
  from assms(1) obtain st0 where "st = finishCapture H d st0"
    by (auto simp: handleCapture_def)
  with assms(2) show ?thesis
    by (auto simp: finishCapture_def Let_def split: if_splits)
qed

section \<open>Compositing\<close>

lemma repaint_extent:
  "cwidth (repaint f c) = cwidth c"
  "cheight (repaint f c) = cheight c"
  "length (pixels (repaint f c)) = cheight c"
  by (simp_all add: repaint_def)

lemma repaint_rows: "r \<in> set (pixels (repaint f c)) \<Longrightarrow> length r = cwidth c"
  by (auto simp: repaint_def)

lemma getPixel_repaint:
  "x < cwidth c \<Longrightarrow> y < cheight c \<Longrightarrow> getPixel (repaint f c) x y = f x y (getPixel c x y)"
  by (simp add: repaint_def getPixel_def)

lemma createCanvas_extent:
  "cwidth (createCanvas w h) = nat w"
  "cheight (createCanvas w h) = nat h"
  "length (pixels (createCanvas w h)) = nat h"
  by (simp_all add: createCanvas_def)

lemma createCanvas_rows: "r \<in> set (pixels (createCanvas w h)) \<Longrightarrow> length r = nat w"
  by (auto simp: createCanvas_def)

lemma drawImage_extent:
  "cwidth (drawImage img dx dy c) = cwidth c"
  "cheight (drawImage img dx dy c) = cheight c"
  "length (pixels (drawImage img dx dy c)) = cheight c"
  by (simp_all add: drawImage_def repaint_extent)

lemma drawImage_rows: "r \<in> set (pixels (drawImage img dx dy c)) \<Longrightarrow> length r = cwidth c"
  unfolding drawImage_def by (rule repaint_rows)

lemma drawImages_extent:
  assumes "length (pixels c) = cheight c" "\<forall>r \<in> set (pixels c). length r = cwidth c"
  shows "cwidth (drawImages H ts c) = cwidth c \<and> cheight (drawImages H ts c) = cheight c
       \<and> length (pixels (drawImages H ts c)) = cheight c
       \<and> (\<forall>r \<in> set (pixels (drawImages H ts c)). length r = cwidth c)"
  using assms
proof (induction ts arbitrary: c)
  case Nil
  then show ?case by simp
next
  case (Cons t ts)
  show ?case
  proof (cases "loadImage H (dataUrl t)")
    case None
    then show ?thesis using Cons by simp
  next
    case (Some img)
    let ?c = "drawImage img 0 (scrollY t) c"
    have "cwidth (drawImages H ts ?c) = cwidth ?c \<and> cheight (drawImages H ts ?c) = cheight ?c
       \<and> length (pixels (drawImages H ts ?c)) = cheight ?c
       \<and> (\<forall>r \<in> set (pixels (drawImages H ts ?c)). length r = cwidth ?c)"
      by (rule Cons.IH) (auto simp: drawImage_extent dest: drawImage_rows)
    then show ?thesis using Some by (simp add: drawImage_extent)
  qed
qed

lemma combineLoop_extent:
  assumes "combineLoop H ts c = Some c'"
    "length (pixels c) = cheight c" "\<forall>r \<in> set (pixels c). length r = cwidth c"
  shows "cwidth c' = cwidth c \<and> cheight c' = cheight c
       \<and> length (pixels c') = cheight c \<and> (\<forall>r \<in> set (pixels c'). length r = cwidth c)"
  using assms
proof (induction ts arbitrary: c)
  case Nil
  then show ?case by simp
next
  case (Cons t ts)
  from Cons.prems(1) obtain img where img: "loadImage H (dataUrl t) = Some img"
    and rest: "combineLoop H ts (drawImage img 0 (yPosition t) c) = Some c'"
    by (auto split: option.splits)
  let ?c = "drawImage img 0 (yPosition t) c"
  have "cwidth c' = cwidth ?c \<and> cheight c' = cheight ?c
       \<and> length (pixels c') = cheight ?c \<and> (\<forall>r \<in> set (pixels c'). length r = cwidth ?c)"
    by (rule Cons.IH [OF rest]) (auto simp: drawImage_extent dest: drawImage_rows)
  then show ?case by (simp add: drawImage_extent)
qed

lemma combineLoop_finishes:
  assumes "\<forall>t \<in> set ts. loadImage H (dataUrl t) \<noteq> None"
  shows "\<exists>c'. combineLoop H ts c = Some c'"
  using assms by (induction ts arbitrary: c) auto

lemma processImages_extent:
  "cwidth (processImages H ts d) = nat (width d) \<and> cheight (processImages H ts d) = nat (height d)
   \<and> length (pixels (processImages H ts d)) = nat (height d)
   \<and> (\<forall>r \<in> set (pixels (processImages H ts d)). length r = nat (width d))"
proof -
  let ?c = "fillRect white 0 0 (width d) (height d) (createCanvas (width d) (height d))"
  have "cwidth (drawImages H ts ?c) = cwidth ?c \<and> cheight (drawImages H ts ?c) = cheight ?c
       \<and> length (pixels (drawImages H ts ?c)) = cheight ?c
       \<and> (\<forall>r \<in> set (pixels (drawImages H ts ?c)). length r = cwidth ?c)"
    by (rule drawImages_extent)
       (auto simp: fillRect_def repaint_extent createCanvas_extent dest: repaint_rows)
  then show ?thesis
    by (simp add: processImages_def fillRect_def repaint_extent createCanvas_extent)
qed

lemma drawImages_untouched:
  assumes "x < cwidth c" "y < cheight c" "\<forall>t \<in> set ts. \<not> covered H t x y"
  shows "getPixel (drawImages H ts c) x y = getPixel c x y"
  using assms
proof (induction ts arbitrary: c)
  case Nil
  then show ?case by simp
next
  case (Cons t ts)
  show ?case
  proof (cases "loadImage H (dataUrl t)")
    case None
    then show ?thesis using Cons by simp
  next
    case (Some img)
    let ?c = "drawImage img 0 (scrollY t) c"
    have "\<not> covered H t x y" using Cons.prems(3) by simp
    then have same: "getPixel ?c x y = getPixel c x y"
      using Some Cons.prems(1,2) by (auto simp: covered_def drawImage_def getPixel_repaint)
    have "getPixel (drawImages H ts ?c) x y = getPixel ?c x y"
      by (rule Cons.IH) (use Cons.prems in \<open>simp_all add: drawImage_extent\<close>)
    then show ?thesis using Some same by simp
  qed
qed

lemma processImages_background:
  assumes "int x < width d" "int y < height d" "\<forall>t \<in> set ts. \<not> covered H t x y"
  shows "getPixel (processImages H ts d) x y = white"
proof -
  let ?c = "fillRect white 0 0 (width d) (height d) (createCanvas (width d) (height d))"
  have x: "x < nat (width d)" and y: "y < nat (height d)" using assms(1,2) by simp_all
  have "getPixel ?c x y = white"
    using x y assms(1,2) by (simp add: fillRect_def getPixel_repaint createCanvas_extent)
  moreover have "getPixel (drawImages H ts ?c) x y = getPixel ?c x y"
    by (rule drawImages_untouched)
       (use x y assms(3) in \<open>simp_all add: fillRect_def repaint_extent createCanvas_extent\<close>)
  ultimately show ?thesis by (simp add: processImages_def)
qed

lemma drawImages_skips_undecodable:
  assumes "loadImage H (dataUrl t) = None"
  shows "drawImages H (ts1 @ t # ts2) c = drawImages H (ts1 @ ts2) c"
  using assms by (induction ts1 arbitrary: c) (simp_all split: option.splits)

lemma processImages_skips_undecodable:
  assumes "loadImage H (dataUrl t) = None"
  shows "processImages H (ts1 @ t # ts2) d = processImages H (ts1 @ ts2) d"
  using assms by (simp add: processImages_def drawImages_skips_undecodable)

section \<open>The stated properties\<close>

lemmas run_eval =
  beginCapture_def clicked_def page_def okHost_def captureFailsAt_def corruptAt_def
  captureCurrentViewport.simps js_floor_mul_09_def js_ceil_div_def processScreenshots_def
  handleCapture_def captureSections.simps finishCapture_def

text \<open>
  Claim C1 (monotone offsets ending at \<open>totalHeight - viewportHeight\<close>). On a page of height
  3100 seen through a viewport of height 1000, \<open>captureCurrentViewport\<close> records the offsets
  0, 900, 1800, 2700; the last one is not \<open>3100 - 1000\<close>. The placements of \<open>handleCapture\<close> on
  that page are 0, 1000, 2000, 2100.
\<close>

theorem last_offset_not_clamped:
  "map_option (map scrollY \<circ> screenshots)
     (beginCapture okHost (clicked (page 800 3100 0 1000))) = Some [0, 900, 1800, 2700]
   \<and> (2700 :: int) \<noteq> height (page 800 3100 0 1000) - viewportHeight (page 800 3100 0 1000)
   \<and> map_option (map yPosition \<circ> captured)
         (handleCapture okHost 1 (page 800 3100 0 1000) 0) = Some [0, 1000, 2000, 2100]"
  by (simp add: run_eval)

text \<open>
  Claim C2 (scenario 2500 / 1000). \<open>captureCurrentViewport\<close> computes the step 900 and records
  three tiles, at the offsets 0, 900 and 1800: the third offset is the unclamped multiple of
  the step, not \<open>2500 - 1000 = 1500\<close>. On the same page \<open>handleCapture\<close>, which steps by the
  whole viewport, does place its third tile at 1500.
\<close>

theorem scenario_2500_1000_offsets:
  "js_floor_mul_09 1000 = 900
   \<and> map_option (map scrollY \<circ> screenshots)
         (beginCapture okHost (clicked (page 800 2500 0 1000))) = Some [0, 900, 1800]
   \<and> map_option (map yPosition \<circ> captured)
         (handleCapture okHost 1 (page 800 2500 0 1000) 0) = Some [0, 1000, 1500]"
  by (simp add: run_eval)

text \<open>
  Claim C3 (coverage). With a viewport of positive height and a host whose scroll and capture
  steps succeed, both drivers return, and every row \<open>y\<close> of the page, \<open>0 \<le> y < height\<close>, lies
  in the range \<open>[placement, placement + viewportHeight)\<close> of some recorded tile: for
  \<open>captureCurrentViewport\<close> whenever its step \<open>floor(viewportHeight * 0.9)\<close> is positive, for
  \<open>handleCapture\<close> (step \<open>viewportHeight\<close>) always.
\<close>

theorem tiles_cover_page:
  assumes vh: "0 < viewportHeight d"
    and ok: "\<forall>j. scrollResolves H j \<and> captureVisibleTab H j \<noteq> None"
  shows "(currentTab s = Some t \<and> dimensions s = Some d \<and> 0 < js_floor_mul_09 (viewportHeight d) \<longrightarrow>
            (\<exists>s'. beginCapture H s = Some s' \<and>
               (\<forall>y. 0 \<le> y \<and> y < height d \<longrightarrow>
                  (\<exists>p \<in> set (screenshots s'). scrollY p \<le> y \<and> y < scrollY p + viewportHeight d))))
       \<and> (\<exists>st. handleCapture H tabId d y0 = Some st \<and>
               (\<forall>y. 0 \<le> y \<and> y < height d \<longrightarrow>
                  (\<exists>p \<in> set (captured st). yPosition p \<le> y \<and> y < yPosition p + viewportHeight d)))"
proof (intro conjI impI)
  assume a: "currentTab s = Some t \<and> dimensions s = Some d \<and> 0 < js_floor_mul_09 (viewportHeight d)"
  then have step: "0 < scrollStepOf d" by (simp add: scrollStepOf_def)
  have le: "scrollStepOf d \<le> viewportHeight d"
    using vh by (simp add: scrollStepOf_def js_floor_mul_09_def)
  from beginCapture_completes [of s t d H] a step ok
  obtain s' where s': "beginCapture H s = Some (processScreenshots H s')"
    "map scrollY (screenshots s') = map (\<lambda>j. int j * scrollStepOf d) [0..<tileCount d]"
    by auto
  have "\<exists>p \<in> set (screenshots s'). scrollY p \<le> y \<and> y < scrollY p + viewportHeight d"
    if y: "0 \<le> y" "y < height d" for y
  proof -
    from offsets_cover [OF step le y] obtain j where j: "j < tileCount d"
      "int j * scrollStepOf d \<le> y" "y < int j * scrollStepOf d + viewportHeight d"
      by blast
    have "int j * scrollStepOf d \<in> set (map scrollY (screenshots s'))"
      unfolding s'(2) using j(1) by (auto intro!: image_eqI [where x = j])
    then show ?thesis using j(2,3) by auto
  qed
  then show "\<exists>s'. beginCapture H s = Some s' \<and>
               (\<forall>y. 0 \<le> y \<and> y < height d \<longrightarrow>
                  (\<exists>p \<in> set (screenshots s'). scrollY p \<le> y \<and> y < scrollY p + viewportHeight d))"
    using s'(1) by (simp add: screenshots_processScreenshots)
next
  let ?st0 = "\<lparr>captured = [], pageScroll = y0, scrolledTo = [], rejected = None, downloaded = None\<rparr>"
  from sections_complete [OF vh, of 0 H ?st0] ok
  obtain st' where st': "captureSections H d ?st0 0 = Some st'"
    "map yPosition (captured st') = map (placement d) [0..<sectionCount d]"
    by auto
  have "\<exists>p \<in> set (captured st'). yPosition p \<le> y \<and> y < yPosition p + viewportHeight d"
    if y: "0 \<le> y" "y < height d" for y
  proof -
    from placements_cover [OF vh y] obtain j where j: "j < sectionCount d"
      "placement d j \<le> y" "y < placement d j + viewportHeight d"
      by blast
    have "placement d j \<in> set (map yPosition (captured st'))"
      unfolding st'(2) using j(1) by simp
    then show ?thesis using j(2,3) by auto
  qed
  then show "\<exists>st. handleCapture H tabId d y0 = Some st \<and>
               (\<forall>y. 0 \<le> y \<and> y < height d \<longrightarrow>
                  (\<exists>p \<in> set (captured st). yPosition p \<le> y \<and> y < yPosition p + viewportHeight d))"
    using st'(1) by (simp add: handleCapture_def captured_finishCapture)
qed

theorem tiles_cover_page_witness:
  "(\<exists>s'. beginCapture okHost (clicked (page 1 5 0 2)) = Some s' \<and>
      (\<exists>p. p \<in> set (screenshots s') \<and> scrollY p \<le> 4 \<and> 4 < scrollY p + 2))
   \<and> (\<exists>st. handleCapture okHost 1 (page 1 5 0 2) 0 = Some st \<and>
      (\<exists>p. p \<in> set (captured st) \<and> yPosition p \<le> 4 \<and> 4 < yPosition p + 2))"
proof -
  have vh: "0 < viewportHeight (page 1 5 0 2)" by (simp add: page_def)
  have ok: "\<forall>j. scrollResolves okHost j \<and> captureVisibleTab okHost j \<noteq> None"
    by (simp add: okHost_def)
  have pre: "currentTab (clicked (page 1 5 0 2)) = Some 1
      \<and> dimensions (clicked (page 1 5 0 2)) = Some (page 1 5 0 2)
      \<and> 0 < js_floor_mul_09 (viewportHeight (page 1 5 0 2))"
    by (simp add: clicked_def page_def js_floor_mul_09_def)
  have h: "height (page 1 5 0 2) = 5" "viewportHeight (page 1 5 0 2) = 2" by (simp_all add: page_def)
  from tiles_cover_page [OF vh ok, of "clicked (page 1 5 0 2)" 1 1 0] pre
  obtain s' st where
    A: "beginCapture okHost (clicked (page 1 5 0 2)) = Some s'"
       "\<forall>y. 0 \<le> y \<and> y < 5 \<longrightarrow>
          (\<exists>p \<in> set (screenshots s'). scrollY p \<le> y \<and> y < scrollY p + 2)"
    and B: "handleCapture okHost 1 (page 1 5 0 2) 0 = Some st"
       "\<forall>y. 0 \<le> y \<and> y < 5 \<longrightarrow>
          (\<exists>p \<in> set (captured st). yPosition p \<le> y \<and> y < yPosition p + 2)"
    unfolding h by blast
  have y: "(0::int) \<le> 4 \<and> (4::int) < 5" by simp
  from A(2) y have "\<exists>p. p \<in> set (screenshots s') \<and> scrollY p \<le> 4 \<and> 4 < scrollY p + 2"
    by blast
  moreover from B(2) y have "\<exists>p. p \<in> set (captured st) \<and> yPosition p \<le> 4 \<and> 4 < yPosition p + 2"
    by blast
  ultimately show ?thesis using A(1) B(1) by blast
qed

text \<open>
  Claim C4 (a page no taller than the viewport yields exactly one tile, at offset 0). For a page
  exactly as tall as a viewport of height 1000, \<open>captureCurrentViewport\<close> records two tiles, at
  the offsets 0 and 900: its guard goes on while \<open>currentScrollPos + scrollStep < height\<close>, and
  the step is only nine tenths of the viewport. \<open>handleCapture\<close> records one tile, at 0, on
  that page.
\<close>

theorem single_viewport_two_tiles:
  "height (page 800 1000 0 1000) \<le> viewportHeight (page 800 1000 0 1000)
   \<and> map_option (map scrollY \<circ> screenshots)
         (beginCapture okHost (clicked (page 800 1000 0 1000))) = Some [0, 900]
   \<and> map_option (map yPosition \<circ> captured)
         (handleCapture okHost 1 (page 800 1000 0 1000) 0) = Some [0]"
  by (simp add: run_eval)

text \<open>
  Claim C5 (white background under the tiles). \<open>combineScreenshots\<close> draws on the canvas as
  created: on a page two pixels wide whose only tile is one pixel wide, the pixel beside the
  tile is transparent in the composite of \<open>handleCapture\<close>, where \<open>processImages\<close> leaves it
  white.
\<close>

theorem combine_leaves_uncovered_transparent:
  "map_option downloaded (handleCapture okHost 1 (page 2 1 0 1) 0)
     = Some (Some \<lparr>cwidth = 2, cheight = 1, pixels = [[RGB 255 0 0, Transparent]]\<rparr>)
   \<and> pixels (processImages okHost [\<lparr>dataUrl = ''png'', scrollY = 0\<rparr>] (page 2 1 0 1))
     = [[RGB 255 0 0, white]]"
  by code_simp

text \<open>
  Claim C6 (an undecodable tile is skipped). When the second of the tiles does not decode, the
  loop of \<open>combineScreenshots\<close> waits for an \<open>onload\<close> that never comes: \<open>handleCapture\<close> ends
  without a rejection and without a composite. \<open>processImages\<close>, on the same page, skips the
  tile and delivers the composite of the others.
\<close>

theorem combine_stalls_on_undecodable_tile:
  "map_option rejected (handleCapture (corruptAt 1) 1 (page 1 3 0 2) 0) = Some None
   \<and> map_option (map dataUrl \<circ> captured) (handleCapture (corruptAt 1) 1 (page 1 3 0 2) 0)
       = Some [''png'', ''corrupt'']
   \<and> map_option downloaded (handleCapture (corruptAt 1) 1 (page 1 3 0 2) 0) = Some None
   \<and> map_option (map_option pixels \<circ> download) (beginCapture (corruptAt 1) (clicked (page 1 3 0 2)))
       = Some (Some [[RGB 255 0 0], [white], [RGB 255 0 0]])"
  by code_simp

text \<open>
  Claim C7 as stated (a failing tile aborts the session and a restore of the original scroll
  position is attempted) fails: when the capture of the second of three tiles is rejected, on a
  page first scrolled to offset 42, the only scroll commands of the session are those of the
  first two tiles, and the page is left at offset 900.
\<close>

theorem failed_capture_no_restore:
  "originalScrollPos (page 800 2500 42 1000) = 42
   \<and> map_option scrollRequests (beginCapture (captureFailsAt 1) (clicked (page 800 2500 42 1000)))
       = Some [0, 900]
   \<and> map_option pageScrollY (beginCapture (captureFailsAt 1) (clicked (page 800 2500 42 1000)))
       = Some 900"
  by (simp add: run_eval)

text \<open>
  Claim C7, amended. If the scroll or the capture step of tile \<open>k\<close> fails, the tiles before it
  having succeeded and the loop having gone on after each of them, \<open>captureCurrentViewport\<close>
  ends the session there: exactly the \<open>k\<close> tiles before the failing one are recorded, nothing
  is handed to the download, the error is written to the console, and the failing tile's scroll
  command is the last one issued (no scroll back to the original position).
\<close>

theorem failed_tile_aborts_session:
  assumes "currentTab s = Some t" "dimensions s = Some d"
    and "\<forall>j < k. scrollResolves H j \<and> captureVisibleTab H j \<noteq> None \<and> moreToCapture d j"
    and "\<not> scrollResolves H k \<or> captureVisibleTab H k = None"
  shows "\<exists>s'. beginCapture H s = Some s'
           \<and> length (screenshots s') = k
           \<and> download s' = download s
           \<and> console s' = console s @
               [if scrollResolves H k then ''Failed to capture viewport:''
                else ''Failed to scroll to position:'']
           \<and> scrollRequests s' =
               scrollRequests s @ map (\<lambda>j. int j * js_floor_mul_09 (viewportHeight d)) [0..<Suc k]"
proof -
  let ?s = "s\<lparr>screenshots := []\<rparr>"
  have "\<exists>s'. captureCurrentViewport H ?s 0 = Some s'
           \<and> map scrollY (screenshots s') =
               map scrollY (screenshots ?s) @ map (\<lambda>j. int j * scrollStepOf d) [0..<k]
           \<and> scrollRequests s' =
               scrollRequests ?s @ map (\<lambda>j. int j * scrollStepOf d) [0..<Suc k]
           \<and> pageScrollY s' =
               (if scrollResolves H k then int k * scrollStepOf d
                else if 0 < k then int (k - 1) * scrollStepOf d else pageScrollY ?s)
           \<and> console s' = console ?s @
               [if scrollResolves H k then ''Failed to capture viewport:''
                else ''Failed to scroll to position:'']
           \<and> download s' = download ?s"
    by (rule capture_run_aborts [of ?s t d 0 k H]) (use assms in simp_all)
  then obtain s' where s': "captureCurrentViewport H ?s 0 = Some s'"
    "map scrollY (screenshots s') =
       map scrollY (screenshots ?s) @ map (\<lambda>j. int j * scrollStepOf d) [0..<k]"
    "scrollRequests s' = scrollRequests ?s @ map (\<lambda>j. int j * scrollStepOf d) [0..<Suc k]"
    "console s' = console ?s @
               [if scrollResolves H k then ''Failed to capture viewport:''
                else ''Failed to scroll to position:'']"
    "download s' = download ?s"
    by blast
  from s'(2) have "length (map scrollY (screenshots s')) = k" by simp
  then have "length (screenshots s') = k" by simp
  then show ?thesis
    using s'(1,3,4,5) assms(1,2)
    by (intro exI [of _ s']) (simp add: beginCapture_def scrollStepOf_def del: upt_Suc)
qed

theorem failed_tile_aborts_session_witness:
  "captureVisibleTab (captureFailsAt 1) 1 = None
   \<and> moreToCapture (page 800 2500 42 1000) 0
   \<and> (\<exists>s'. beginCapture (captureFailsAt 1) (clicked (page 800 2500 42 1000)) = Some s'
         \<and> length (screenshots s') = 1 \<and> download s' = None
         \<and> console s' = [''Failed to capture viewport:'']
         \<and> scrollRequests s' = [0, 900])"
proof -
  have f: "captureVisibleTab (captureFailsAt 1) 1 = None"
    by (simp add: captureFailsAt_def)
  have m: "moreToCapture (page 800 2500 42 1000) 0"
    by (simp add: moreToCapture_def page_def js_floor_mul_09_def js_ceil_div_def)
  have pre: "\<forall>j < 1. scrollResolves (captureFailsAt 1) j
      \<and> captureVisibleTab (captureFailsAt 1) j \<noteq> None \<and> moreToCapture (page 800 2500 42 1000) j"
    using m by (simp add: captureFailsAt_def okHost_def)
  have "\<exists>s'. beginCapture (captureFailsAt 1) (clicked (page 800 2500 42 1000)) = Some s'
         \<and> length (screenshots s') = 1 \<and> download s' = None
         \<and> console s' = [''Failed to capture viewport:'']
         \<and> scrollRequests s' = [0, 900]"
    using failed_tile_aborts_session
      [of "clicked (page 800 2500 42 1000)" 1 "page 800 2500 42 1000" 1 "captureFailsAt 1"] pre f
    by (simp add: clicked_def page_def js_floor_mul_09_def captureFailsAt_def okHost_def)
  then show ?thesis using f m by blast
qed

text \<open>
  Claim C8 (scroll position restored after a successful session). A session of
  \<open>captureCurrentViewport\<close> that starts at scroll offset 0 and captures all three tiles of the
  2500 / 1000 page without an error ends with the page scrolled to 1800; the last position it
  asks the page to scroll to is that of the last tile. \<open>handleCapture\<close>, entered at offset 0 on
  the same page, scrolls back to 0 after its last tile.
\<close>

theorem successful_session_leaves_page_scrolled:
  "originalScrollPos (page 800 2500 0 1000) = 0
   \<and> map_option pageScrollY (beginCapture okHost (clicked (page 800 2500 0 1000))) = Some 1800
   \<and> map_option scrollRequests (beginCapture okHost (clicked (page 800 2500 0 1000)))
       = Some [0, 900, 1800]
   \<and> map_option console (beginCapture okHost (clicked (page 800 2500 0 1000))) = Some []
   \<and> map_option scrolledTo (handleCapture okHost 1 (page 800 2500 0 1000) 0)
       = Some [0, 1000, 2000, 0]
   \<and> map_option pageScroll (handleCapture okHost 1 (page 800 2500 0 1000) 0) = Some 0"
  by (simp add: run_eval)

text \<open>
  Claim C9 (termination). For a page of positive height, and counting one iteration per scroll
  command issued: with a viewport of height at least 2 the recursion of
  \<open>captureCurrentViewport\<close> returns, whatever the host answers, after at most
  \<open>ceil(height / scrollStep)\<close> iterations, and so does the loop of \<open>handleCapture\<close>; with a
  viewport of height 0 or 1 the step is 0 and, on a host whose scroll and capture steps
  succeed, the recursion of \<open>captureCurrentViewport\<close> never returns.
\<close>

theorem capture_loop_termination:
  assumes "currentTab s = Some t" "dimensions s = Some d" "0 < height d"
  shows "(2 \<le> viewportHeight d \<longrightarrow>
            (\<exists>s'. captureCurrentViewport H s 0 = Some s'
               \<and> int (length (scrollRequests s')) - int (length (scrollRequests s))
                   \<le> - ((- height d) div js_floor_mul_09 (viewportHeight d)))
          \<and> (\<exists>st'. captureSections H d st 0 = Some st'
               \<and> int (length (scrolledTo st')) - int (length (scrolledTo st))
                   \<le> - ((- height d) div js_floor_mul_09 (viewportHeight d))))
       \<and> (0 \<le> viewportHeight d \<and> viewportHeight d \<le> 1
            \<and> (\<forall>j. scrollResolves H j \<and> captureVisibleTab H j \<noteq> None) \<longrightarrow>
            captureCurrentViewport H s 0 = None)"
proof (intro conjI impI)
  assume vh: "2 \<le> viewportHeight d"
  then have step: "0 < scrollStepOf d" by (simp add: scrollStepOf_def js_floor_mul_09_def)
  have le: "scrollStepOf d \<le> viewportHeight d"
    using vh by (simp add: scrollStepOf_def js_floor_mul_09_def)
  have count: "int (tileCount d) = - ((- height d) div js_floor_mul_09 (viewportHeight d))"
    using assms(3) tileCount_pos [OF step] by (simp add: tileCount_def scrollStepOf_def)
  from capture_run_terminates [OF assms(1,2) step tileCount_pos [OF step], of H]
  obtain s' where s': "captureCurrentViewport H s 0 = Some s'"
    "length (scrollRequests s') \<le> length (scrollRequests s) + (tileCount d - 0)"
    by blast
  from s'(2) have "int (length (scrollRequests s')) - int (length (scrollRequests s))
      \<le> int (tileCount d)" by simp
  then show "\<exists>s'. captureCurrentViewport H s 0 = Some s'
               \<and> int (length (scrollRequests s')) - int (length (scrollRequests s))
                   \<le> - ((- height d) div js_floor_mul_09 (viewportHeight d))"
    using s'(1) count by simp
  have vh0: "0 < viewportHeight d" using vh by simp
  from sections_terminate [OF vh0, of H st 0]
  obtain st' where st': "captureSections H d st 0 = Some st'"
    "length (scrolledTo st') \<le> length (scrolledTo st) + (sectionCount d - 0)"
    by blast
  have "- ((- height d) div viewportHeight d) \<le> - ((- height d) div scrollStepOf d)"
    using ceil_div_antimono [OF assms(3) step le] .
  then have "int (sectionCount d) \<le> - ((- height d) div js_floor_mul_09 (viewportHeight d))"
    using count tileCount_pos [OF step] by (simp add: sectionCount_def scrollStepOf_def)
  moreover from st'(2) have "int (length (scrolledTo st')) - int (length (scrolledTo st))
      \<le> int (sectionCount d)" by simp
  ultimately show "\<exists>st'. captureSections H d st 0 = Some st'
               \<and> int (length (scrolledTo st')) - int (length (scrolledTo st))
                   \<le> - ((- height d) div js_floor_mul_09 (viewportHeight d))"
    using st'(1) by auto
next
  assume a: "0 \<le> viewportHeight d \<and> viewportHeight d \<le> 1
            \<and> (\<forall>j. scrollResolves H j \<and> captureVisibleTab H j \<noteq> None)"
  then have "scrollStepOf d = 0" by (simp add: scrollStepOf_def js_floor_mul_09_def)
  from capture_run_diverges [OF assms(1,2) this assms(3)] a
  show "captureCurrentViewport H s 0 = None" by simp
qed

theorem capture_loop_termination_witness:
  "(\<exists>s'. captureCurrentViewport okHost (clicked (page 1 5 0 2)) 0 = Some s'
       \<and> int (length (scrollRequests s')) \<le> 5)
   \<and> captureCurrentViewport okHost (clicked (page 1 5 0 1)) 0 = None"
proof -
  have ok: "\<forall>j. scrollResolves okHost j \<and> captureVisibleTab okHost j \<noteq> None"
    by (simp add: okHost_def)
  have "\<exists>s'. captureCurrentViewport okHost (clicked (page 1 5 0 2)) 0 = Some s'
       \<and> int (length (scrollRequests s')) \<le> 5"
    using capture_loop_termination [of "clicked (page 1 5 0 2)" 1 "page 1 5 0 2" okHost]
    by (simp add: clicked_def page_def js_floor_mul_09_def)
  moreover have "captureCurrentViewport okHost (clicked (page 1 5 0 1)) 0 = None"
    using capture_loop_termination [of "clicked (page 1 5 0 1)" 1 "page 1 5 0 1" okHost] ok
    by (simp add: clicked_def page_def)
  ultimately show ?thesis by blast
qed

text \<open>
  Claim C10 (output extent). For page extents that are non-negative and every list of tiles,
  whatever their number and placements: the canvas produced by \<open>processImages\<close> has exactly
  \<open>height\<close> rows of exactly \<open>width\<close> pixels; \<open>combineScreenshots\<close> returns a canvas whenever
  every tile decodes, and a canvas it returns has exactly \<open>height\<close> rows of exactly \<open>width\<close>
  pixels; drawing one image at any offset, also one that reaches below the bottom edge, leaves
  the extent of the surface as it was.
\<close>

theorem composite_has_page_extent:
  assumes "0 \<le> width d" "0 \<le> height d"
  shows "int (length (pixels (processImages H shots d))) = height d
       \<and> (\<forall>r \<in> set (pixels (processImages H shots d)). int (length r) = width d)
       \<and> ((\<forall>t \<in> set tiles. loadImage H (dataUrl t) \<noteq> None) \<longrightarrow>
              (\<exists>c. combineScreenshots H tiles (width d) (height d) = Some c))
       \<and> (\<forall>c. combineScreenshots H tiles (width d) (height d) = Some c \<longrightarrow>
              int (length (pixels c)) = height d
              \<and> (\<forall>r \<in> set (pixels c). int (length r) = width d))
       \<and> (\<forall>img dy c. length (pixels (drawImage img 0 dy c)) = cheight c
              \<and> (\<forall>r \<in> set (pixels (drawImage img 0 dy c)). length r = cwidth c))"
proof (intro conjI allI impI)
  show "int (length (pixels (processImages H shots d))) = height d"
    using processImages_extent [of H shots d] assms by simp
  show "\<forall>r \<in> set (pixels (processImages H shots d)). int (length r) = width d"
    using processImages_extent [of H shots d] assms by simp
next
  assume "\<forall>t \<in> set tiles. loadImage H (dataUrl t) \<noteq> None"
  then show "\<exists>c. combineScreenshots H tiles (width d) (height d) = Some c"
    unfolding combineScreenshots_def by (rule combineLoop_finishes)
next
  fix c
  assume c: "combineScreenshots H tiles (width d) (height d) = Some c"
  have ext: "cwidth c = cwidth (createCanvas (width d) (height d))
       \<and> cheight c = cheight (createCanvas (width d) (height d))
       \<and> length (pixels c) = cheight (createCanvas (width d) (height d))
       \<and> (\<forall>r \<in> set (pixels c). length r = cwidth (createCanvas (width d) (height d)))"
    by (rule combineLoop_extent [of H tiles])
       (use c in \<open>auto simp: combineScreenshots_def createCanvas_extent dest: createCanvas_rows\<close>)
  show "int (length (pixels c)) = height d"
    using ext assms by (simp add: createCanvas_extent)
  show "\<forall>r \<in> set (pixels c). int (length r) = width d"
    using ext assms by (simp add: createCanvas_extent)
next
  fix img dy c
  show "length (pixels (drawImage img 0 dy c)) = cheight c"
    by (simp add: drawImage_extent)
  show "\<forall>r \<in> set (pixels (drawImage img 0 dy c)). length r = cwidth c"
    by (auto dest: drawImage_rows)
qed

theorem composite_has_page_extent_witness:
  "(0::int) \<le> width (page 1 3 0 2) \<and> (0::int) \<le> height (page 1 3 0 2)
   \<and> loadImage (hostShowing (striped 1 2)) ''png'' = Some (striped 1 2)
   \<and> 3 < (2::int) + int (iheight (striped 1 2))
   \<and> pixels (processImages (hostShowing (striped 1 2))
         [\<lparr>dataUrl = ''png'', scrollY = 0\<rparr>, \<lparr>dataUrl = ''png'', scrollY = 2\<rparr>] (page 1 3 0 2))
       = [[RGB 0 0 0], [RGB 0 0 1], [RGB 0 0 0]]
   \<and> int (length (pixels (processImages (hostShowing (striped 1 2))
         [\<lparr>dataUrl = ''png'', scrollY = 0\<rparr>, \<lparr>dataUrl = ''png'', scrollY = 2\<rparr>] (page 1 3 0 2)))) = 3
   \<and> combineScreenshots (hostShowing (striped 1 2))
         [\<lparr>dataUrl = ''png'', yPosition = 0\<rparr>, \<lparr>dataUrl = ''png'', yPosition = 2\<rparr>] 1 3
       = Some \<lparr>cwidth = 1, cheight = 3, pixels = [[RGB 0 0 0], [RGB 0 0 1], [RGB 0 0 0]]\<rparr>
   \<and> (\<exists>c. combineScreenshots (hostShowing (striped 1 2))
         [\<lparr>dataUrl = ''png'', yPosition = 0\<rparr>, \<lparr>dataUrl = ''png'', yPosition = 2\<rparr>] 1 3 = Some c
       \<and> int (length (pixels c)) = 3)"
proof -
  let ?H = "hostShowing (striped 1 2)"
  let ?shots = "[\<lparr>dataUrl = ''png'', scrollY = 0\<rparr>, \<lparr>dataUrl = ''png'', scrollY = 2\<rparr>]"
  let ?tiles = "[\<lparr>dataUrl = ''png'', yPosition = 0\<rparr>, \<lparr>dataUrl = ''png'', yPosition = 2\<rparr>]"
  have d: "width (page 1 3 0 2) = 1" "height (page 1 3 0 2) = 3" by (simp_all add: page_def)
  have img: "loadImage ?H ''png'' = Some (striped 1 2)"
    by (simp add: hostShowing_def okHost_def)
  have below: "3 < (2::int) + int (iheight (striped 1 2))" by (simp add: striped_def)
  have decode: "\<forall>t \<in> set ?tiles. loadImage ?H (dataUrl t) \<noteq> None"
    using img by simp
  have px: "pixels (processImages ?H ?shots (page 1 3 0 2))
       = [[RGB 0 0 0], [RGB 0 0 1], [RGB 0 0 0]]"
    by code_simp
  have cs: "combineScreenshots ?H ?tiles 1 3
       = Some \<lparr>cwidth = 1, cheight = 3, pixels = [[RGB 0 0 0], [RGB 0 0 1], [RGB 0 0 0]]\<rparr>"
    by code_simp
  from composite_has_page_extent [of "page 1 3 0 2" ?H ?shots ?tiles] decode
  have "int (length (pixels (processImages ?H ?shots (page 1 3 0 2)))) = 3"
    and "\<exists>c. combineScreenshots ?H ?tiles 1 3 = Some c \<and> int (length (pixels c)) = 3"
    unfolding d by auto
  then show ?thesis using d img below px cs by simp
qed

end
